theory Spec2Isabelle
  imports Main
begin

section \<open>Component records (SingletonWithDependency.hpp)\<close>

text \<open>
  A cleaner is a \<^verbatim>\<open>std::function<void()>\<close>: a nullary effectful action. It is modelled
  as a transformer of the world outside the manager (type \<open>'w\<close>) that either returns or
  leaves by an exception. Cleaners are assumed not to call back into the manager.
\<close>

datatype completion = Returns | Throws

type_synonym 'w action = "'w \<Rightarrow> completion \<times> 'w"

text \<open>
  \<^verbatim>\<open>class DependencyComponent { bool is_deleted; std::size_t id; std::function<void()> cleaner; }\<close>.
  The field \<^verbatim>\<open>id\<close> is only stored, never computed with.
\<close>

record 'w DependencyComponent =
  is_deleted :: bool
  component_id :: nat
  cleaner :: "'w action"

text \<open>The default constructor: \<^verbatim>\<open>is_deleted(true), id(0u), cleaner([](){})\<close>.\<close>

definition default_component :: "'w DependencyComponent" where
  "default_component = \<lparr>is_deleted = True, component_id = 0, cleaner = (\<lambda>w. (Returns, w))\<rparr>"

text \<open>The constructor \<^verbatim>\<open>DependencyComponent(id, cleaner_ftor)\<close>: \<^verbatim>\<open>is_deleted(false)\<close>.\<close>

definition make_component :: "nat \<Rightarrow> 'w action \<Rightarrow> 'w DependencyComponent" where
  "make_component i f = \<lparr>is_deleted = False, component_id = i, cleaner = f\<rparr>"

text \<open>
  \<^verbatim>\<open>void clear() { cleaner(); is_deleted = false; }\<close>: when the cleaner throws, the
  assignment is not reached.
\<close>

definition component_clear ::
  "'w DependencyComponent \<Rightarrow> 'w \<Rightarrow> completion \<times> 'w DependencyComponent \<times> 'w" where
  "component_clear c w =
     (case cleaner c w of
        (Throws, w') \<Rightarrow> (Throws, c, w')
      | (Returns, w') \<Rightarrow> (Returns, c\<lparr>is_deleted := False\<rparr>, w'))"

text \<open>
  Modelled from the spec: the functor \<^verbatim>\<open>DependencyCleaner\<close>, the \<^verbatim>\<open>Deleter\<close> argument of
  \<^verbatim>\<open>DepManager\<close>, is named in SingletonWithDependency.hpp but declared nowhere. Applied to
  a vertex's record it invokes the record's cleanup action, which is what
  \<^verbatim>\<open>DependencyComponent::clear\<close> does.
\<close>

definition DependencyCleaner ::
  "'w DependencyComponent \<Rightarrow> 'w \<Rightarrow> completion \<times> 'w DependencyComponent \<times> 'w" where
  "DependencyCleaner c w = component_clear c w"

section \<open>The dependency graph (\<^verbatim>\<open>adjacency_list<vecS, vecS, bidirectionalS, ...>\<close>)\<close>

text \<open>
  A vertex descriptor is an index into the vertex vector. Each stored vertex keeps the
  vector of its out-edges and of its in-edges (target or source, with the edge's bundled
  property \<open>'l\<close>) and its bundled vertex property.
\<close>

type_synonym vertex = nat

record ('w, 'l) stored_vertex =
  m_out_edges :: "(vertex \<times> 'l) list"
  m_in_edges :: "(vertex \<times> 'l) list"
  m_property :: "'w DependencyComponent"

type_synonym ('w, 'l) DepGraph = "('w, 'l) stored_vertex list"

definition num_vertices :: "('w, 'l) DepGraph \<Rightarrow> nat" where
  "num_vertices g = length g"

definition vertices :: "('w, 'l) DepGraph \<Rightarrow> vertex list" where
  "vertices g = [0 ..< num_vertices g]"

definition new_vertex :: "'w DependencyComponent \<Rightarrow> ('w, 'l) stored_vertex" where
  "new_vertex p = \<lparr>m_out_edges = [], m_in_edges = [], m_property = p\<rparr>"

text \<open>\<^verbatim>\<open>add_vertex(p, g)\<close> appends a vertex and returns its descriptor.\<close>

definition add_vertex ::
  "'w DependencyComponent \<Rightarrow> ('w, 'l) DepGraph \<Rightarrow> vertex \<times> ('w, 'l) DepGraph" where
  "add_vertex p g = (num_vertices g, g @ [new_vertex p])"

text \<open>The targets of the out-edges of \<open>u\<close>, in insertion order.\<close>

definition out_targets :: "('w, 'l) DepGraph \<Rightarrow> vertex \<Rightarrow> vertex list" where
  "out_targets g u = (if u < num_vertices g then map fst (m_out_edges (g ! u)) else [])"

text \<open>\<^verbatim>\<open>edge(u, v, g).second\<close>: is there an out-edge of \<open>u\<close> with target \<open>v\<close>.\<close>

definition edge :: "vertex \<Rightarrow> vertex \<Rightarrow> ('w, 'l) DepGraph \<Rightarrow> bool" where
  "edge u v g = (v \<in> set (out_targets g u))"

text \<open>
  \<^verbatim>\<open>add_edge(u, v, g)\<close> on a vertex vector first grows the vector to hold both ends
  (with default-constructed vertices), then records the edge in the out-edges of \<open>u\<close> and
  the in-edges of \<open>v\<close>; parallel edges are allowed, so it always succeeds. The caller
  then assigns the edge's bundled property; the model stores the label at once.
\<close>

definition grow :: "nat \<Rightarrow> ('w, 'l) DepGraph \<Rightarrow> ('w, 'l) DepGraph" where
  "grow x g =
     (if x \<ge> num_vertices g
      then g @ replicate (x + 1 - num_vertices g) (new_vertex default_component)
      else g)"

definition add_edge ::
  "vertex \<Rightarrow> vertex \<Rightarrow> 'l \<Rightarrow> ('w, 'l) DepGraph \<Rightarrow> ('w, 'l) DepGraph" where
  "add_edge u v l g =
     (let g1 = grow (max u v) g;
          g2 = g1[u := (g1 ! u)\<lparr>m_out_edges := m_out_edges (g1 ! u) @ [(v, l)]\<rparr>]
      in g2[v := (g2 ! v)\<lparr>m_in_edges := m_in_edges (g2 ! v) @ [(u, l)]\<rparr>])"

section \<open>Breadth-first search (\<^verbatim>\<open>boost::breadth_first_search\<close>)\<close>

text \<open>
  The search keeps the vertices discovered so far (the non-white vertices of the colour
  map, in discovery order) and the queue. A vertex is white when it is a vertex of the
  graph and not yet discovered. On discovery the visitor's \<^verbatim>\<open>discover_vertex\<close> runs:
  \<^verbatim>\<open>bfs_halting_visitor\<close> throws \<^verbatim>\<open>breaking_condition_exception\<close> when its vertex
  predicate holds (the result \<open>None\<close>); \<^verbatim>\<open>DeletionStackBfsVisitor\<close> pushes the vertex on
  its stack, which is then the discovery order.
\<close>

definition white :: "nat \<Rightarrow> vertex list \<Rightarrow> vertex \<Rightarrow> bool" where
  "white n disc v = (v < n \<and> v \<notin> set disc)"

text \<open>\<^verbatim>\<open>struct no_halting\<close>: the predicate that never holds.\<close>

definition no_halting :: "vertex \<Rightarrow> bool" where
  "no_halting v = False"

text \<open>The loop over the out-edges of the vertex taken from the queue.\<close>

fun examine_edges ::
  "nat \<Rightarrow> (vertex \<Rightarrow> bool) \<Rightarrow> vertex list \<Rightarrow> vertex list \<Rightarrow> vertex list
     \<Rightarrow> (vertex list \<times> vertex list) option" where
  "examine_edges n vpred [] disc Q = Some (disc, Q)"
| "examine_edges n vpred (v # vs) disc Q =
     (if white n disc v
      then (if vpred v then None else examine_edges n vpred vs (disc @ [v]) (Q @ [v]))
      else examine_edges n vpred vs disc Q)"

lemma examine_edges_measure:
  "examine_edges n vpred vs disc Q = Some (disc', Q') \<Longrightarrow>
   card {v. white n disc' v} + length Q' = card {v. white n disc v} + length Q"
proof (induction vs arbitrary: disc Q)
  case Nil
  then show ?case by simp
next
  case (Cons v vs)
  show ?case
  proof (cases "white n disc v")
    case True
    with Cons.prems have rec: "examine_edges n vpred vs (disc @ [v]) (Q @ [v]) = Some (disc', Q')"
      by (simp split: if_splits)
    have fin: "finite {x. white n disc x}"
      by (simp add: white_def)
    have mem: "v \<in> {x. white n disc x}"
      using True by simp
    have "{x. white n (disc @ [v]) x} = {x. white n disc x} - {v}"
      by (auto simp: white_def)
    then have "card {x. white n (disc @ [v]) x} = card {x. white n disc x} - 1"
      using fin mem by simp
    moreover have "card {x. white n disc x} > 0"
      using fin mem by (metis card_gt_0_iff empty_iff)
    ultimately show ?thesis
      using Cons.IH [OF rec] by simp
  next
    case False
    with Cons.prems have "examine_edges n vpred vs disc Q = Some (disc', Q')"
      by simp
    then show ?thesis by (rule Cons.IH)
  qed
qed

text \<open>The main loop: take a vertex from the queue and examine its out-edges.\<close>

function bfs_loop ::
  "nat \<Rightarrow> (vertex \<Rightarrow> vertex list) \<Rightarrow> (vertex \<Rightarrow> bool) \<Rightarrow> vertex list \<Rightarrow> vertex list
     \<Rightarrow> vertex list option" where
  "bfs_loop n succs vpred disc [] = Some disc"
| "bfs_loop n succs vpred disc (u # Q) =
     (case examine_edges n vpred (succs u) disc Q of
        None \<Rightarrow> None
      | Some (disc', Q') \<Rightarrow> bfs_loop n succs vpred disc' Q')"
  by pat_completeness auto

termination
proof (relation "measure (\<lambda>(n, succs, vpred, disc, Q). card {v. white n disc v} + length Q)")
  show "wf (measure (\<lambda>(n, succs, vpred, disc, Q). card {v. white n disc v} + length Q))"
    by simp
next
  fix n :: nat and succs :: "vertex \<Rightarrow> vertex list" and vpred :: "vertex \<Rightarrow> bool"
    and disc Q :: "vertex list" and u :: vertex and x2 :: "vertex list \<times> vertex list"
    and disc' Q' :: "vertex list"
  assume "examine_edges n vpred (succs u) disc Q = Some x2" and "(disc', Q') = x2"
  then have "examine_edges n vpred (succs u) disc Q = Some (disc', Q')"
    by simp
  from examine_edges_measure [OF this]
  show "((n, succs, vpred, disc', Q'), (n, succs, vpred, disc, u # Q))
          \<in> measure (\<lambda>(n, succs, vpred, disc, Q). card {v. white n disc v} + length Q)"
    by simp
qed

text \<open>
  \<^verbatim>\<open>breadth_first_search(g, s, visitor(vis))\<close>: every vertex white, then the source is
  discovered (the visitor sees it first) and queued.
\<close>

definition breadth_first_search ::
  "('w, 'l) DepGraph \<Rightarrow> vertex \<Rightarrow> (vertex \<Rightarrow> bool) \<Rightarrow> vertex list option" where
  "breadth_first_search g s vpred =
     (if vpred s then None
      else bfs_loop (num_vertices g) (out_targets g) vpred [s] [s])"

section \<open>The manager (DependencyManager.hpp)\<close>

record ('id, 'w, 'l) DependencyManager =
  m_dependency_graph :: "('w, 'l) DepGraph"
  m_vertices_map :: "'id \<rightharpoonup> vertex"

text \<open>A freshly constructed manager: an empty graph and an empty id map.\<close>

definition empty_manager :: "('id, 'w, 'l) DependencyManager" where
  "empty_manager = \<lparr>m_dependency_graph = [], m_vertices_map = Map.empty\<rparr>"

subsection \<open>Clean-up member functions\<close>

text \<open>
  \<^verbatim>\<open>filtered_graph<DepGraph, keep_all, VertexPredicate>\<close>: the out-edges whose target
  fails the vertex predicate are hidden. \<^verbatim>\<open>boost::keep_all\<close> keeps everything.
\<close>

definition keep_all :: "vertex \<Rightarrow> bool" where
  "keep_all v = True"

definition filtered_graph :: "('w, 'l) DepGraph \<Rightarrow> (vertex \<Rightarrow> bool) \<Rightarrow> ('w, 'l) DepGraph" where
  "filtered_graph g pred =
     map (\<lambda>sv. sv\<lparr>m_out_edges := filter (\<lambda>e. pred (fst e)) (m_out_edges sv),
                    m_in_edges := filter (\<lambda>e. pred (fst e)) (m_in_edges sv)\<rparr>) g"

text \<open>
  \<^verbatim>\<open>get_deletion_stack(root, pred)\<close>: a search of the filtered graph from \<open>root\<close> with
  the \<^verbatim>\<open>DeletionStackBfsVisitor\<close>, which never halts the search; the result is the
  discovery order. An exception of the search would leave the function (\<open>None\<close>).
\<close>

definition get_deletion_stack ::
  "('w, 'l) DepGraph \<Rightarrow> vertex \<Rightarrow> (vertex \<Rightarrow> bool) \<Rightarrow> vertex list option" where
  "get_deletion_stack g root pred = breadth_first_search (filtered_graph g pred) root no_halting"

text \<open>\<^verbatim>\<open>is_root_dependency(v)\<close>: the in-edge range of \<open>v\<close> is empty.\<close>

definition is_root_dependency :: "('w, 'l) DepGraph \<Rightarrow> vertex \<Rightarrow> bool" where
  "is_root_dependency g v = (m_in_edges (g ! v) = [])"

text \<open>
  The sweep threads the graph (whose records the deleter writes), the outside world and
  a log: the cleanup invocations so far, each with the vertex and how the call ended.
  The log is an observer of the run, not a variable of the program.
\<close>

type_synonym invocation = "vertex \<times> completion"

type_synonym ('w, 'l) sweep = "completion \<times> ('w, 'l) DepGraph \<times> 'w \<times> invocation list"

text \<open>
  The loop of \<^verbatim>\<open>perform_deletion_from\<close>: \<^verbatim>\<open>del(m_dependency_graph[*v_rit])\<close> for each
  vertex of the stack from its top. An exception of the deleter leaves the loop.
\<close>

fun delete_each ::
  "vertex list \<Rightarrow> ('w, 'l) DepGraph \<Rightarrow> 'w \<Rightarrow> invocation list \<Rightarrow> ('w, 'l) sweep" where
  "delete_each [] g w lg = (Returns, g, w, lg)"
| "delete_each (v # vs) g w lg =
     (case DependencyCleaner (m_property (g ! v)) w of
        (Throws, c', w') \<Rightarrow>
          (Throws, g[v := (g ! v)\<lparr>m_property := c'\<rparr>], w', lg @ [(v, Throws)])
      | (Returns, c', w') \<Rightarrow>
          delete_each vs (g[v := (g ! v)\<lparr>m_property := c'\<rparr>]) w' (lg @ [(v, Returns)]))"

definition perform_deletion_from ::
  "vertex \<Rightarrow> ('w, 'l) DepGraph \<Rightarrow> 'w \<Rightarrow> invocation list \<Rightarrow> ('w, 'l) sweep" where
  "perform_deletion_from v g w lg =
     (case get_deletion_stack g v keep_all of
        None \<Rightarrow> (Throws, g, w, lg)
      | Some del_stack \<Rightarrow> delete_each (rev del_stack) g w lg)"

text \<open>The loop of \<^verbatim>\<open>clear\<close> over the vertex range taken at entry.\<close>

fun clear_loop ::
  "vertex list \<Rightarrow> ('w, 'l) DepGraph \<Rightarrow> 'w \<Rightarrow> invocation list \<Rightarrow> ('w, 'l) sweep" where
  "clear_loop [] g w lg = (Returns, g, w, lg)"
| "clear_loop (v # vs) g w lg =
     (if is_root_dependency g v
      then (case perform_deletion_from v g w lg of
              (Throws, r) \<Rightarrow> (Throws, r)
            | (Returns, g', w', lg') \<Rightarrow> clear_loop vs g' w' lg')
      else clear_loop vs g w lg)"

text \<open>
  \<^verbatim>\<open>clear()\<close>: the result is how the call ended, the manager and the world after it,
  and the log of the cleanup invocations it made.
\<close>

definition clear ::
  "('id, 'w, 'l) DependencyManager \<Rightarrow> 'w
     \<Rightarrow> completion \<times> ('id, 'w, 'l) DependencyManager \<times> 'w \<times> invocation list" where
  "clear s w =
     (case clear_loop (vertices (m_dependency_graph s)) (m_dependency_graph s) w [] of
        (c, g', w', lg) \<Rightarrow> (c, s\<lparr>m_dependency_graph := g'\<rparr>, w', lg))"

subsection \<open>Registration\<close>

text \<open>The four \<^verbatim>\<open>std::runtime_error\<close>s of the registration functions, by message.\<close>

datatype error =
  AlreadyRegistered
  | NotRegistered
  | DependencyAlreadyRegistered
  | WouldCycle

text \<open>
  \<^verbatim>\<open>detect_cycle\<close>: a search from the target of the dependency whose visitor halts on
  discovering the source; the \<^verbatim>\<open>breaking_condition_exception\<close> is caught and turned
  into the runtime error. The source and the target are the descriptors found by
  \<^verbatim>\<open>register_dependency\<close>.
\<close>

definition detect_cycle :: "('w, 'l) DepGraph \<Rightarrow> vertex \<Rightarrow> vertex \<Rightarrow> error option" where
  "detect_cycle g src dst =
     (case breadth_first_search g dst (\<lambda>v. v = src) of
        None \<Rightarrow> Some WouldCycle
      | Some _ \<Rightarrow> None)"

text \<open>
  The registration functions return the error thrown, if any, and the manager after the
  call. In \<^verbatim>\<open>register_dependency\<close> the two iterators found in the id map are the source
  and the target that the edge test, \<^verbatim>\<open>detect_cycle\<close> and \<^verbatim>\<open>add_edge\<close> work on; the
  checks come in the order of the source: unknown id, registered edge, cycle.
\<close>

definition register_component ::
  "('id, 'w, 'l) DependencyManager \<Rightarrow> 'id \<Rightarrow> 'w DependencyComponent
     \<Rightarrow> error option \<times> ('id, 'w, 'l) DependencyManager" where
  "register_component s i properties =
     (if m_vertices_map s i = None
      then (case add_vertex properties (m_dependency_graph s) of
              (v, g') \<Rightarrow>
                (None, s\<lparr>m_dependency_graph := g', m_vertices_map := (m_vertices_map s)(i \<mapsto> v)\<rparr>))
      else (Some AlreadyRegistered, s))"

definition register_dependency ::
  "('id, 'w, 'l) DependencyManager \<Rightarrow> 'id \<Rightarrow> 'id \<Rightarrow> 'l
     \<Rightarrow> error option \<times> ('id, 'w, 'l) DependencyManager" where
  "register_dependency s src_id dst_id edge_prop =
     (case (m_vertices_map s src_id, m_vertices_map s dst_id) of
        (Some src, Some dst) \<Rightarrow>
          (if edge src dst (m_dependency_graph s)
           then (Some DependencyAlreadyRegistered, s)
           else (case detect_cycle (m_dependency_graph s) src dst of
                   Some e \<Rightarrow> (Some e, s)
                 | None \<Rightarrow>
                     (None, s\<lparr>m_dependency_graph :=
                               add_edge src dst edge_prop (m_dependency_graph s)\<rparr>)))
      | _ \<Rightarrow> (Some NotRegistered, s))"

section \<open>Vocabulary of the claims\<close>

text \<open>
  The edge relation of a graph: \<open>(u, v)\<close> when \<open>v\<close> is the target of an out-edge of \<open>u\<close>.
  "\<open>u\<close> reaches \<open>v\<close>" is \<open>(u, v) \<in> (edges g)\<^sup>*\<close>.
\<close>

definition succ_rel :: "(vertex \<Rightarrow> vertex list) \<Rightarrow> (vertex \<times> vertex) set" where
  "succ_rel succs = {(u, v). v \<in> set (succs u)}"

definition edges :: "('w, 'l) DepGraph \<Rightarrow> (vertex \<times> vertex) set" where
  "edges g = succ_rel (out_targets g)"

text \<open>Every out-edge leads to a vertex of the graph; and the graph has no directed cycle.\<close>

definition wf_graph :: "('w, 'l) DepGraph \<Rightarrow> bool" where
  "wf_graph g = (\<forall>u < num_vertices g. \<forall>v \<in> set (out_targets g u). v < num_vertices g)"

definition graph_inv :: "('w, 'l) DepGraph \<Rightarrow> bool" where
  "graph_inv g = (wf_graph g \<and> acyclic (edges g))"

text \<open>
  What of a stored vertex is not the \<open>is_deleted\<close> flag of its record: the out-edges and
  in-edges with their labels, the component id and the cleanup action.
\<close>

definition frame ::
  "('w, 'l) stored_vertex \<Rightarrow> (vertex \<times> 'l) list \<times> (vertex \<times> 'l) list \<times> nat \<times> 'w action" where
  "frame sv = (m_out_edges sv, m_in_edges sv, component_id (m_property sv), cleaner (m_property sv))"

text \<open>
  A manager is built from the empty one by calls of \<open>register_component\<close> and
  \<open>register_dependency\<close>, failed calls included, and by sweeps.
\<close>

inductive reachable :: "('id, 'w, 'l) DependencyManager \<Rightarrow> bool" where
  initial: "reachable empty_manager"
| component: "reachable s \<Longrightarrow> reachable (snd (register_component s i p))"
| dependency: "reachable s \<Longrightarrow> reachable (snd (register_dependency s a b l))"
| sweep: "reachable s \<Longrightarrow> clear s w = (c, s', w', lg) \<Longrightarrow> reachable s'"

text \<open>A sequence of API calls, run from a given manager; the errors are collected.\<close>

datatype ('id, 'w, 'l) call =
  RegisterComponent 'id "'w DependencyComponent"
  | RegisterDependency 'id 'id 'l

fun run_call ::
  "('id, 'w, 'l) DependencyManager \<Rightarrow> ('id, 'w, 'l) call
     \<Rightarrow> error option \<times> ('id, 'w, 'l) DependencyManager" where
  "run_call s (RegisterComponent i p) = register_component s i p"
| "run_call s (RegisterDependency a b l) = register_dependency s a b l"

fun run_calls ::
  "('id, 'w, 'l) DependencyManager \<Rightarrow> ('id, 'w, 'l) call list
     \<Rightarrow> error option list \<times> ('id, 'w, 'l) DependencyManager" where
  "run_calls s [] = ([], s)"
| "run_calls s (c # cs) =
     (case run_call s c of
        (e, s') \<Rightarrow> (case run_calls s' cs of (es, s'') \<Rightarrow> (e # es, s'')))"

text \<open>Every registered dependency call of the sequence returned without error.\<close>

fun dependencies_ok :: "('id, 'w, 'l) call list \<Rightarrow> error option list \<Rightarrow> bool" where
  "dependencies_ok [] [] = True"
| "dependencies_ok (RegisterComponent i p # cs) (e # es) = dependencies_ok cs es"
| "dependencies_ok (RegisterDependency a b l # cs) (e # es) = (e = None \<and> dependencies_ok cs es)"
| "dependencies_ok _ _ = False"

text \<open>An invocation that returned; a log in which every invocation returned.\<close>

definition returned :: "invocation \<Rightarrow> bool" where
  "returned e = (snd e = Returns)"

definition all_returned :: "invocation list \<Rightarrow> bool" where
  "all_returned lg = list_all returned lg"


section \<open>Example managers\<close>

text \<open>A cleaner that returns, one that throws, and records built from them.\<close>

definition quiet :: "unit action" where
  "quiet w = (Returns, w)"

definition failing :: "unit action" where
  "failing w = (Throws, w)"

text \<open>Components 10 and 20 with the dependency \<open>10 \<rightarrow> 20\<close> (scenario S3 before the rejected call).\<close>

definition chain2 :: "(nat, unit, unit) DependencyManager" where
  "chain2 =
     snd (register_dependency
       (snd (register_component
         (snd (register_component empty_manager 10 (make_component 10 quiet)))
         20 (make_component 20 quiet)))
       10 20 ())"

definition chain2_calls :: "(nat, unit, unit) call list" where
  "chain2_calls =
     [RegisterComponent 10 (make_component 10 quiet),
      RegisterComponent 20 (make_component 20 quiet),
      RegisterDependency 10 20 ()]"

text \<open>
  Components 10, 20, 30 with the dependencies \<open>10 \<rightarrow> 20\<close>, \<open>10 \<rightarrow> 30\<close>, \<open>30 \<rightarrow> 20\<close>:
  20 depends on 10 and on 30, and 30 depends on 10.
\<close>

definition triangle :: "(nat, unit, unit) DependencyManager" where
  "triangle =
     snd (register_dependency
       (snd (register_dependency
         (snd (register_dependency
           (snd (register_component
             (snd (register_component
               (snd (register_component empty_manager 10 (make_component 10 quiet)))
               20 (make_component 20 quiet)))
             30 (make_component 30 quiet)))
           10 20 ()))
         10 30 ()))
       30 20 ())"

definition triangle_calls :: "(nat, unit, unit) call list" where
  "triangle_calls =
     [RegisterComponent 10 (make_component 10 quiet),
      RegisterComponent 20 (make_component 20 quiet),
      RegisterComponent 30 (make_component 30 quiet),
      RegisterDependency 10 20 (), RegisterDependency 10 30 (), RegisterDependency 30 20 ()]"

text \<open>
  Components 1, 2, 3 with the dependencies \<open>1 \<rightarrow> 3\<close> and \<open>2 \<rightarrow> 3\<close> (scenario S6): two
  roots that share a descendant.
\<close>

definition two_roots :: "(nat, unit, unit) DependencyManager" where
  "two_roots =
     snd (register_dependency
       (snd (register_dependency
         (snd (register_component
           (snd (register_component
             (snd (register_component empty_manager 1 (make_component 1 quiet)))
             2 (make_component 2 quiet)))
           3 (make_component 3 quiet)))
         1 3 ()))
       2 3 ())"

text \<open>A manager holding one default-constructed record, whose flag is true.\<close>

definition blank :: "(nat, unit, unit) DependencyManager" where
  "blank = snd (register_component empty_manager 7 default_component)"


section \<open>What the search computes\<close>

lemma examine_edges_spec:
  assumes "\<forall>v \<in> set vs. v < n"
  shows "case examine_edges n vpred vs disc Q of
           None \<Rightarrow> (\<exists>v \<in> set vs - set disc. vpred v)
         | Some (disc', Q') \<Rightarrow>
             set disc' = set disc \<union> set vs \<and> set Q' = set Q \<union> (set vs - set disc)
             \<and> (\<forall>v \<in> set vs - set disc. \<not> vpred v)"
  using assms
proof (induction vs arbitrary: disc Q)
  case Nil
  then show ?case by simp
next
  case (Cons v vs)
  then have small: "\<forall>x \<in> set vs. x < n" and vn: "v < n"
    by simp_all
  show ?case
  proof (cases "white n disc v")
    case False
    then have "v \<in> set disc"
      using vn by (simp add: white_def)
    then show ?thesis
      using Cons.IH [OF small, of disc Q] False
      by (auto split: option.splits)
  next
    case True
    then have fresh: "v \<notin> set disc"
      by (simp add: white_def)
    show ?thesis
    proof (cases "vpred v")
      case True
      then show ?thesis
        using \<open>white n disc v\<close> fresh by auto
    next
      case False
      then show ?thesis
        using Cons.IH [OF small, of "disc @ [v]" "Q @ [v]"] \<open>white n disc v\<close> fresh
        by (auto split: option.splits)
    qed
  qed
qed

lemma rtrancl_Image_absorb: "A \<subseteq> B \<Longrightarrow> B \<subseteq> r\<^sup>* `` A \<Longrightarrow> r\<^sup>* `` B = r\<^sup>* `` A"
  by (blast intro: rtrancl_trans)

lemma bfs_loop_spec:
  "\<forall>u. \<forall>v \<in> set (succs u). v < n \<Longrightarrow> set Q \<subseteq> set disc \<Longrightarrow>
   \<forall>u \<in> set disc - set Q. set (succs u) \<subseteq> set disc \<Longrightarrow>
   (case bfs_loop n succs vpred disc Q of
      None \<Rightarrow> (\<exists>v \<in> (succ_rel succs)\<^sup>* `` set disc - set disc. vpred v)
    | Some disc' \<Rightarrow>
        set disc' = (succ_rel succs)\<^sup>* `` set disc \<and> (\<forall>v \<in> set disc' - set disc. \<not> vpred v))"
proof (induction n succs vpred disc Q rule: bfs_loop.induct)
  case (1 n succs vpred disc)
  then have "succ_rel succs `` set disc \<subseteq> set disc"
    by (auto simp: succ_rel_def)
  then have "(succ_rel succs)\<^sup>* `` set disc = set disc"
    by (rule Image_closed_trancl)
  then show ?case by simp
next
  case (2 n succs vpred disc u Q)
  let ?E = "succ_rel succs"
  have range: "\<forall>v \<in> set (succs u). v < n"
    using "2.prems"(1) by simp
  have u_disc: "u \<in> set disc"
    using "2.prems"(2) by simp
  have succ_reach: "set (succs u) \<subseteq> ?E\<^sup>* `` set disc"
    using u_disc by (auto simp: succ_rel_def)
  note spec = examine_edges_spec [OF range, where vpred = vpred and disc = disc and Q = Q]
  show ?case
  proof (cases "examine_edges n vpred (succs u) disc Q")
    case None
    then obtain v where "v \<in> set (succs u) - set disc" "vpred v"
      using spec by auto
    then show ?thesis
      using None succ_reach by auto
  next
    case (Some r)
    obtain disc' Q' where r: "r = (disc', Q')"
      by (cases r)
    have d': "set disc' = set disc \<union> set (succs u)"
      and q': "set Q' = set Q \<union> (set (succs u) - set disc)"
      and nh: "\<forall>v \<in> set (succs u) - set disc. \<not> vpred v"
      using spec Some r by simp_all
    have inv1: "set Q' \<subseteq> set disc'"
      using d' q' "2.prems"(2) by auto
    have inv2: "\<forall>x \<in> set disc' - set Q'. set (succs x) \<subseteq> set disc'"
      using d' q' "2.prems"(3) by auto
    have "set disc \<subseteq> set disc'" and "set disc' \<subseteq> ?E\<^sup>* `` set disc"
      using d' succ_reach by auto
    then have closure: "?E\<^sup>* `` set disc' = ?E\<^sup>* `` set disc"
      by (rule rtrancl_Image_absorb)
    note IH = "2.IH" [OF Some r [symmetric] "2.prems"(1) inv1 inv2]
    have step: "bfs_loop n succs vpred disc (u # Q) = bfs_loop n succs vpred disc' Q'"
      using Some r by simp
    show ?thesis
    proof (cases "bfs_loop n succs vpred disc' Q'")
      case None
      then obtain v where "v \<in> ?E\<^sup>* `` set disc' - set disc'" "vpred v"
        using IH by auto
      then have "v \<in> ?E\<^sup>* `` set disc - set disc" "vpred v"
        using closure d' by auto
      then show ?thesis
        using None step by auto
    next
      case (Some res)
      then have all: "set res = ?E\<^sup>* `` set disc'"
        and quiet: "\<forall>v \<in> set res - set disc'. \<not> vpred v"
        using IH by simp_all
      have "\<forall>v \<in> set res - set disc. \<not> vpred v"
        using quiet nh d' by blast
      then show ?thesis
        using Some step all closure by simp
    qed
  qed
qed

lemma examine_edges_no_halting:
  "examine_edges n no_halting vs disc Q \<noteq> None"
  by (induction vs arbitrary: disc Q) (simp_all add: no_halting_def)

lemma bfs_loop_no_halting:
  "bfs_loop n succs no_halting disc Q \<noteq> None"
proof (induction n succs "no_halting" disc Q rule: bfs_loop.induct)
  case (1 n succs disc)
  then show ?case by simp
next
  case (2 n succs disc u Q)
  then show ?case
    using examine_edges_no_halting [of n "succs u" disc Q]
    by (auto split: option.splits)
qed

lemma breadth_first_search_no_halting:
  "breadth_first_search g s no_halting \<noteq> None"
proof -
  have "\<not> no_halting s"
    by (simp add: no_halting_def)
  then show ?thesis
    unfolding breadth_first_search_def
    using bfs_loop_no_halting [of "num_vertices g" "out_targets g" "[s]" "[s]"]
    by (simp del: bfs_loop.simps)
qed

lemma wf_graph_range:
  "wf_graph g \<Longrightarrow> \<forall>u. \<forall>v \<in> set (out_targets g u). v < num_vertices g"
  by (auto simp: wf_graph_def out_targets_def)

lemma breadth_first_search_halts_iff:
  assumes "wf_graph g"
  shows "breadth_first_search g s vpred = None \<longleftrightarrow> (\<exists>v. (s, v) \<in> (edges g)\<^sup>* \<and> vpred v)"
proof (cases "vpred s")
  case True
  then show ?thesis
    by (auto simp: breadth_first_search_def)
next
  case False
  have spec: "case bfs_loop (num_vertices g) (out_targets g) vpred [s] [s] of
      None \<Rightarrow> (\<exists>v \<in> (edges g)\<^sup>* `` set [s] - set [s]. vpred v)
    | Some disc' \<Rightarrow>
        set disc' = (edges g)\<^sup>* `` set [s] \<and> (\<forall>v \<in> set disc' - set [s]. \<not> vpred v)"
    unfolding edges_def
    by (rule bfs_loop_spec [OF wf_graph_range [OF assms]]) simp_all
  show ?thesis
  proof (cases "bfs_loop (num_vertices g) (out_targets g) vpred [s] [s]")
    case None
    then show ?thesis
      using spec False by (auto simp: breadth_first_search_def)
  next
    case (Some res)
    then have "set res = (edges g)\<^sup>* `` {s}" and "\<forall>v \<in> set res - {s}. \<not> vpred v"
      using spec by simp_all
    then have "\<forall>v. (s, v) \<in> (edges g)\<^sup>* \<longrightarrow> \<not> vpred v"
      using False by blast
    then show ?thesis
      using Some False by (auto simp: breadth_first_search_def)
  qed
qed

section \<open>How the graph operations change the edge relation\<close>

lemma out_targets_add_vertex: "out_targets (snd (add_vertex p g)) u = out_targets g u"
  by (auto simp: add_vertex_def out_targets_def num_vertices_def nth_append new_vertex_def)

lemma edges_add_vertex: "edges (snd (add_vertex p g)) = edges g"
  by (simp add: edges_def succ_rel_def out_targets_add_vertex)

lemma wf_graph_add_vertex: "wf_graph g \<Longrightarrow> wf_graph (snd (add_vertex p g))"
  unfolding wf_graph_def out_targets_add_vertex
  by (auto simp: add_vertex_def num_vertices_def out_targets_def less_Suc_eq)

lemma length_grow: "length (grow x g) = max (length g) (Suc x)"
  by (simp add: grow_def num_vertices_def)

lemma out_targets_grow: "out_targets (grow x g) u = out_targets g u"
  by (auto simp: grow_def out_targets_def num_vertices_def nth_append new_vertex_def)

lemma length_add_edge: "length (add_edge u v l g) = max (length g) (Suc (max u v))"
  by (simp add: add_edge_def Let_def length_grow)

lemma out_targets_add_edge:
  "out_targets (add_edge u v l g) x = (if x = u then out_targets g u @ [v] else out_targets g x)"
proof -
  define g1 where "g1 = grow (max u v) g"
  have len: "u < length g1" "v < length g1"
    by (simp_all add: g1_def length_grow)
  have base: "\<And>y. out_targets g1 y = out_targets g y"
    by (simp add: g1_def out_targets_grow)
  have "out_targets (add_edge u v l g) x =
          (if x = u then out_targets g1 u @ [v] else out_targets g1 x)"
    using len
    by (auto simp: add_edge_def Let_def g1_def [symmetric] out_targets_def num_vertices_def
        nth_list_update)
  then show ?thesis
    by (simp add: base)
qed

lemma edges_add_edge: "edges (add_edge u v l g) = insert (u, v) (edges g)"
  by (auto simp: edges_def succ_rel_def out_targets_add_edge split: if_splits)

lemma wf_graph_add_edge:
  assumes "wf_graph g"
  shows "wf_graph (add_edge u v l g)"
  unfolding wf_graph_def
proof (intro allI impI ballI)
  fix x y
  assume "y \<in> set (out_targets (add_edge u v l g) x)"
  then consider "y = v" | "y \<in> set (out_targets g x)"
    by (auto simp: out_targets_add_edge split: if_splits)
  then show "y < num_vertices (add_edge u v l g)"
  proof cases
    case 1
    then show ?thesis
      by (simp add: num_vertices_def length_add_edge)
  next
    case 2
    then have "y < num_vertices g"
      using wf_graph_range [OF assms] by blast
    then show ?thesis
      by (simp add: num_vertices_def length_add_edge)
  qed
qed

text \<open>
  The search, the duplicate-edge test and the edge relation read the graph only through
  its out-edge vectors.
\<close>

lemma out_targets_cong:
  assumes "map m_out_edges g' = map m_out_edges g"
  shows "out_targets g' = out_targets g"
proof
  fix u
  have len: "length g' = length g"
    using assms by (metis length_map)
  show "out_targets g' u = out_targets g u"
  proof (cases "u < length g")
    case True
    then have "m_out_edges (g' ! u) = m_out_edges (g ! u)"
      using assms len by (metis nth_map)
    then show ?thesis
      by (simp add: out_targets_def num_vertices_def len)
  next
    case False
    then show ?thesis
      by (simp add: out_targets_def num_vertices_def len)
  qed
qed

section \<open>What the sweep leaves alone\<close>

lemma frame_DependencyCleaner:
  "DependencyCleaner (m_property sv) w = (c, p', w') \<Longrightarrow> frame (sv\<lparr>m_property := p'\<rparr>) = frame sv"
  by (auto simp: DependencyCleaner_def component_clear_def frame_def
      split: prod.splits completion.splits)

lemma map_frame_update:
  assumes "frame x = frame (g ! v)"
  shows "map frame (g[v := x]) = map frame g"
proof (cases "v < length g")
  case True
  then have "map frame (g[v := x]) = (map frame g)[v := map frame g ! v]"
    using assms by (simp add: map_update)
  then show ?thesis
    by simp
next
  case False
  then have "g[v := x] = g"
    by (simp add: not_less list_update_beyond)
  then show ?thesis
    by simp
qed

lemma delete_each_frame:
  "delete_each vs g w lg = (c, g', w', lg') \<Longrightarrow> map frame g' = map frame g"
proof (induction vs arbitrary: g w lg)
  case Nil
  then show ?case by simp
next
  case (Cons v vs)
  obtain c1 p1 w1 where run: "DependencyCleaner (m_property (g ! v)) w = (c1, p1, w1)"
    by (cases "DependencyCleaner (m_property (g ! v)) w") auto
  have same: "map frame (g[v := (g ! v)\<lparr>m_property := p1\<rparr>]) = map frame g"
    by (rule map_frame_update) (rule frame_DependencyCleaner [OF run])
  show ?case
  proof (cases c1)
    case Returns
    with Cons.prems run
    have "delete_each vs (g[v := (g ! v)\<lparr>m_property := p1\<rparr>]) w1 (lg @ [(v, Returns)])
            = (c, g', w', lg')"
      by simp
    from Cons.IH [OF this] same show ?thesis by simp
  next
    case Throws
    with Cons.prems run same show ?thesis by auto
  qed
qed

lemma perform_deletion_from_frame:
  "perform_deletion_from v g w lg = (c, g', w', lg') \<Longrightarrow> map frame g' = map frame g"
  by (auto simp: perform_deletion_from_def split: option.splits dest: delete_each_frame)

lemma clear_loop_frame:
  "clear_loop vs g w lg = (c, g', w', lg') \<Longrightarrow> map frame g' = map frame g"
proof (induction vs arbitrary: g w lg)
  case Nil
  then show ?case by simp
next
  case (Cons v vs)
  show ?case
  proof (cases "is_root_dependency g v")
    case False
    with Cons show ?thesis by simp
  next
    case True
    obtain c1 g1 w1 lg1 where run: "perform_deletion_from v g w lg = (c1, g1, w1, lg1)"
      by (cases "perform_deletion_from v g w lg") auto
    note same = perform_deletion_from_frame [OF run]
    show ?thesis
    proof (cases c1)
      case Returns
      with Cons.prems True run have "clear_loop vs g1 w1 lg1 = (c, g', w', lg')"
        by simp
      from Cons.IH [OF this] same show ?thesis by simp
    next
      case Throws
      with Cons.prems True run same show ?thesis by auto
    qed
  qed
qed

lemma clear_frame:
  assumes "clear s w = (c, s', w', lg)"
  shows "map frame (m_dependency_graph s') = map frame (m_dependency_graph s)"
    and "m_vertices_map s' = m_vertices_map s"
  using assms
  by (auto simp: clear_def split: prod.splits dest: clear_loop_frame)

lemma frame_out_edges:
  fixes g g' :: "('w, 'l) DepGraph"
  assumes "map frame g' = map frame g"
  shows "map m_out_edges g' = map m_out_edges g"
proof -
  have eq: "map m_out_edges h = map fst (map frame h)" for h :: "('w, 'l) DepGraph"
    by (simp add: frame_def)
  show ?thesis
    by (simp only: eq assms)
qed

lemma frame_in_edges:
  fixes g g' :: "('w, 'l) DepGraph"
  assumes "map frame g' = map frame g"
  shows "map m_in_edges g' = map m_in_edges g"
proof -
  have eq: "map m_in_edges h = map (fst \<circ> snd) (map frame h)" for h :: "('w, 'l) DepGraph"
    by (simp add: frame_def)
  show ?thesis
    by (simp only: eq assms)
qed

section \<open>The invariant of the reachable managers\<close>

lemma graph_inv_empty: "graph_inv []"
  by (simp add: graph_inv_def wf_graph_def edges_def succ_rel_def out_targets_def
      num_vertices_def acyclic_def)

lemma graph_inv_register_component:
  "graph_inv (m_dependency_graph s) \<Longrightarrow>
   graph_inv (m_dependency_graph (snd (register_component s i p)))"
  using wf_graph_add_vertex [of "m_dependency_graph s" p]
    edges_add_vertex [of p "m_dependency_graph s"]
  by (auto simp: register_component_def graph_inv_def split: prod.splits)

lemma detect_cycle_iff:
  "wf_graph g \<Longrightarrow> detect_cycle g src dst = Some WouldCycle \<longleftrightarrow> (dst, src) \<in> (edges g)\<^sup>*"
  "wf_graph g \<Longrightarrow> detect_cycle g src dst = None \<longleftrightarrow> (dst, src) \<notin> (edges g)\<^sup>*"
  using breadth_first_search_halts_iff [of g dst "\<lambda>v. v = src"]
  by (auto simp: detect_cycle_def split: option.splits)

lemma graph_inv_register_dependency:
  assumes "graph_inv (m_dependency_graph s)"
  shows "graph_inv (m_dependency_graph (snd (register_dependency s a b l)))"
proof (cases "fst (register_dependency s a b l)")
  case (Some e)
  then have "snd (register_dependency s a b l) = s"
    by (auto simp: register_dependency_def split: option.splits if_splits)
  then show ?thesis
    using assms by simp
next
  case None
  let ?g = "m_dependency_graph s"
  from None obtain src dst where
    ok: "detect_cycle ?g src dst = None"
    and res: "snd (register_dependency s a b l) = s\<lparr>m_dependency_graph := add_edge src dst l ?g\<rparr>"
    by (auto simp: register_dependency_def split: option.splits if_splits)
  have wf: "wf_graph ?g" and acyc: "acyclic (edges ?g)"
    using assms by (simp_all add: graph_inv_def)
  have "(dst, src) \<notin> (edges ?g)\<^sup>*"
    using ok detect_cycle_iff(2) [OF wf] by simp
  then have "acyclic (insert (src, dst) (edges ?g))"
    using acyc by (simp add: acyclic_insert)
  then show ?thesis
    using wf by (simp add: res graph_inv_def edges_add_edge wf_graph_add_edge)
qed

lemma graph_inv_cong:
  assumes "map frame g' = map frame g" and "graph_inv g"
  shows "graph_inv g'"
proof -
  have ot: "out_targets g' = out_targets g"
    by (rule out_targets_cong) (rule frame_out_edges [OF assms(1)])
  have "length g' = length g"
    using assms(1) by (metis length_map)
  then show ?thesis
    using assms(2) by (simp add: graph_inv_def wf_graph_def edges_def ot num_vertices_def)
qed

lemma acyclic_no_back_path:
  assumes "acyclic r" and "(u, v) \<in> r"
  shows "(v, u) \<notin> r\<^sup>*"
proof
  assume "(v, u) \<in> r\<^sup>*"
  with assms(2) have "(u, u) \<in> r\<^sup>+"
    by (rule rtrancl_into_trancl2)
  with assms(1) show False
    by (simp add: acyclic_def)
qed

lemma edge_iff_edges: "edge u v g \<longleftrightarrow> (u, v) \<in> edges g"
  by (simp add: edge_def edges_def succ_rel_def)

lemma reachable_graph_inv: "reachable s \<Longrightarrow> graph_inv (m_dependency_graph s)"
proof (induction rule: reachable.induct)
  case initial
  then show ?case by (simp add: empty_manager_def graph_inv_empty)
next
  case (component s i p)
  then show ?case by (simp add: graph_inv_register_component)
next
  case (dependency s a b l)
  then show ?case by (simp add: graph_inv_register_dependency)
next
  case (sweep s w c s' w' lg)
  show ?case
    by (rule graph_inv_cong [OF clear_frame(1) [OF sweep.hyps(2)] sweep.IH])
qed

lemma run_calls_reachable: "reachable s \<Longrightarrow> reachable (snd (run_calls s cs))"
proof (induction cs arbitrary: s)
  case Nil
  then show ?case by simp
next
  case (Cons c cs)
  have "reachable (snd (run_call s c))"
    using Cons.prems by (cases c) (simp_all add: reachable.component reachable.dependency)
  from Cons.IH [OF this] show ?case
    by (simp add: case_prod_unfold)
qed

section \<open>The example managers evaluated\<close>

lemmas eval_defs =
  register_dependency_def register_component_def empty_manager_def make_component_def
  add_vertex_def add_edge_def grow_def new_vertex_def num_vertices_def edge_def out_targets_def
  detect_cycle_def breadth_first_search_def white_def Let_def

lemma chain2_value:
  "chain2 =
     \<lparr>m_dependency_graph =
        [\<lparr>m_out_edges = [(1, ())], m_in_edges = [], m_property = make_component 10 quiet\<rparr>,
         \<lparr>m_out_edges = [], m_in_edges = [(0, ())], m_property = make_component 20 quiet\<rparr>],
      m_vertices_map = [10 \<mapsto> 0, 20 \<mapsto> 1]\<rparr>"
  by (simp add: chain2_def eval_defs)

lemma chain2_reachable: "reachable chain2"
  unfolding chain2_def
  by (intro reachable.dependency reachable.component reachable.initial)

lemma chain2_calls_run: "run_calls empty_manager chain2_calls = ([None, None, None], chain2)"
  by (simp add: chain2_calls_def chain2_value eval_defs)

lemmas sweep_defs =
  clear_def vertices_def is_root_dependency_def perform_deletion_from_def get_deletion_stack_def
  filtered_graph_def keep_all_def no_halting_def DependencyCleaner_def component_clear_def
  quiet_def failing_def default_component_def

lemma triangle_value:
  "triangle =
     \<lparr>m_dependency_graph =
        [\<lparr>m_out_edges = [(1, ()), (2, ())], m_in_edges = [],
          m_property = make_component 10 quiet\<rparr>,
         \<lparr>m_out_edges = [], m_in_edges = [(0, ()), (2, ())],
          m_property = make_component 20 quiet\<rparr>,
         \<lparr>m_out_edges = [(1, ())], m_in_edges = [(0, ())],
          m_property = make_component 30 quiet\<rparr>],
      m_vertices_map = [10 \<mapsto> 0, 20 \<mapsto> 1, 30 \<mapsto> 2]\<rparr>"
  by (simp add: triangle_def eval_defs numeral_2_eq_2)

lemma triangle_calls_run:
  "run_calls empty_manager triangle_calls = ([None, None, None, None, None, None], triangle)"
  by (simp add: triangle_calls_def triangle_value eval_defs numeral_2_eq_2)

lemma two_roots_value:
  "two_roots =
     \<lparr>m_dependency_graph =
        [\<lparr>m_out_edges = [(2, ())], m_in_edges = [], m_property = make_component 1 quiet\<rparr>,
         \<lparr>m_out_edges = [(2, ())], m_in_edges = [], m_property = make_component 2 quiet\<rparr>,
         \<lparr>m_out_edges = [], m_in_edges = [(0, ()), (1, ())],
          m_property = make_component 3 quiet\<rparr>],
      m_vertices_map = [1 \<mapsto> 0, 2 \<mapsto> 1, 3 \<mapsto> 2]\<rparr>"
  by (simp add: two_roots_def eval_defs numeral_2_eq_2)


section \<open>The log of a sweep\<close>

lemma all_returned_butlast: "all_returned lg \<Longrightarrow> all_returned (butlast lg)"
  by (auto simp: all_returned_def list_all_iff dest: in_set_butlastD)

lemma delete_each_log:
  "all_returned lg \<Longrightarrow> delete_each vs g w lg = (c, g', w', lg') \<Longrightarrow>
   all_returned (butlast lg') \<and> (c = Returns \<longleftrightarrow> all_returned lg')"
proof (induction vs arbitrary: g w lg)
  case Nil
  then show ?case
    by (auto simp: all_returned_butlast)
next
  case (Cons v vs)
  obtain c1 p1 w1 where run: "DependencyCleaner (m_property (g ! v)) w = (c1, p1, w1)"
    by (cases "DependencyCleaner (m_property (g ! v)) w") auto
  show ?case
  proof (cases c1)
    case Returns
    have "all_returned (lg @ [(v, Returns)])"
      using Cons.prems(1) by (simp add: all_returned_def returned_def)
    moreover have
      "delete_each vs (g[v := (g ! v)\<lparr>m_property := p1\<rparr>]) w1 (lg @ [(v, Returns)])
         = (c, g', w', lg')"
      using Cons.prems(2) run Returns by simp
    ultimately show ?thesis
      by (rule Cons.IH)
  next
    case Throws
    then have "c = Throws" and "lg' = lg @ [(v, Throws)]"
      using Cons.prems(2) run by auto
    then show ?thesis
      using Cons.prems(1) by (simp add: all_returned_def returned_def)
  qed
qed

lemma get_deletion_stack_returns: "get_deletion_stack g v pred \<noteq> None"
  by (simp add: get_deletion_stack_def breadth_first_search_no_halting)

lemma perform_deletion_from_log:
  "all_returned lg \<Longrightarrow> perform_deletion_from v g w lg = (c, g', w', lg') \<Longrightarrow>
   all_returned (butlast lg') \<and> (c = Returns \<longleftrightarrow> all_returned lg')"
  using get_deletion_stack_returns [of g v keep_all]
  by (auto simp: perform_deletion_from_def split: option.splits dest: delete_each_log)

lemma clear_loop_log:
  "all_returned lg \<Longrightarrow> clear_loop vs g w lg = (c, g', w', lg') \<Longrightarrow>
   all_returned (butlast lg') \<and> (c = Returns \<longleftrightarrow> all_returned lg')"
proof (induction vs arbitrary: g w lg)
  case Nil
  then show ?case
    by (auto simp: all_returned_butlast)
next
  case (Cons v vs)
  show ?case
  proof (cases "is_root_dependency g v")
    case False
    with Cons.prems(2) have "clear_loop vs g w lg = (c, g', w', lg')"
      by simp
    with Cons.prems(1) show ?thesis
      by (rule Cons.IH)
  next
    case True
    obtain c1 g1 w1 lg1 where run: "perform_deletion_from v g w lg = (c1, g1, w1, lg1)"
      by (cases "perform_deletion_from v g w lg") auto
    note first = perform_deletion_from_log [OF Cons.prems(1) run]
    show ?thesis
    proof (cases c1)
      case Returns
      then have "all_returned lg1"
        using first by simp
      moreover have "clear_loop vs g1 w1 lg1 = (c, g', w', lg')"
        using Cons.prems(2) True run Returns by simp
      ultimately show ?thesis
        by (rule Cons.IH)
    next
      case Throws
      then have "c = Throws" and "lg' = lg1"
        using Cons.prems(2) True run by auto
      then show ?thesis
        using first Throws by simp
    qed
  qed
qed

section \<open>Calls after the sweep\<close>

lemma edge_cong: "out_targets g' = out_targets g \<Longrightarrow> edge u v g' = edge u v g"
  by (simp add: edge_def)

lemma detect_cycle_cong:
  "out_targets g' = out_targets g \<Longrightarrow> num_vertices g' = num_vertices g \<Longrightarrow>
   detect_cycle g' src dst = detect_cycle g src dst"
  by (simp add: detect_cycle_def breadth_first_search_def)

lemma register_component_error:
  "fst (register_component s i p) = (if m_vertices_map s i = None then None else Some AlreadyRegistered)"
  by (simp add: register_component_def split: prod.splits)

lemma register_dependency_error:
  "fst (register_dependency s a b l) =
     (case (m_vertices_map s a, m_vertices_map s b) of
        (Some src, Some dst) \<Rightarrow>
          (if edge src dst (m_dependency_graph s) then Some DependencyAlreadyRegistered
           else detect_cycle (m_dependency_graph s) src dst)
      | _ \<Rightarrow> Some NotRegistered)"
  by (simp add: register_dependency_def split: option.splits)

section \<open>The log as a run of cleanup actions\<close>






section \<open>The claims on registration\<close>

text \<open>
  C1. In a manager reachable through the API, with \<open>a\<close> and \<open>b\<close> registered,
  \<open>register_dependency a b\<close> ends with the would-cycle error if and only if the vertex of
  \<open>b\<close> reaches the vertex of \<open>a\<close> along the edges present at the call (a path of any
  length, the empty one included).
\<close>

theorem register_dependency_WouldCycle_iff:
  assumes "reachable s"
    and "m_vertices_map s a = Some va"
    and "m_vertices_map s b = Some vb"
  shows "fst (register_dependency s a b l) = Some WouldCycle
           \<longleftrightarrow> (vb, va) \<in> (edges (m_dependency_graph s))\<^sup>*"
proof -
  let ?g = "m_dependency_graph s"
  have wf: "wf_graph ?g" and acyc: "acyclic (edges ?g)"
    using reachable_graph_inv [OF assms(1)] by (simp_all add: graph_inv_def)
  show ?thesis
  proof (cases "edge va vb ?g")
    case True
    then have "(vb, va) \<notin> (edges ?g)\<^sup>*"
      using acyclic_no_back_path [OF acyc] by (simp add: edge_iff_edges)
    moreover have "fst (register_dependency s a b l) = Some DependencyAlreadyRegistered"
      using True assms(2,3) by (simp add: register_dependency_def)
    ultimately show ?thesis by simp
  next
    case False
    then have "fst (register_dependency s a b l) = detect_cycle ?g va vb"
      using assms(2,3) by (simp add: register_dependency_def split: option.splits)
    then show ?thesis
      using detect_cycle_iff(1) [OF wf] by simp
  qed
qed

theorem register_dependency_WouldCycle_iff_witness:
  "reachable chain2 \<and> m_vertices_map chain2 20 = Some 1 \<and> m_vertices_map chain2 10 = Some 0
   \<and> fst (register_dependency chain2 20 10 ()) = Some WouldCycle
   \<and> (0, 1) \<in> (edges (m_dependency_graph chain2))\<^sup>*"
proof -
  have a: "m_vertices_map chain2 20 = Some 1" and b: "m_vertices_map chain2 10 = Some 0"
    by (simp_all add: chain2_value)
  have c: "fst (register_dependency chain2 20 10 ()) = Some WouldCycle"
    by (simp add: chain2_value eval_defs)
  from c register_dependency_WouldCycle_iff [OF chain2_reachable a b, of "()"]
  have "(0, 1) \<in> (edges (m_dependency_graph chain2))\<^sup>*"
    by simp
  with chain2_reachable a b c show ?thesis
    by simp
qed

text \<open>
  C2. After any sequence of registration calls from the empty manager in which every
  \<open>register_dependency\<close> returned without error, the graph has no directed cycle; and
  every manager reachable through the API has an acyclic graph.
\<close>

theorem acyclicity_preservation:
  "(dependencies_ok cs (fst (run_calls empty_manager cs)) \<longrightarrow>
      acyclic (edges (m_dependency_graph (snd (run_calls empty_manager cs)))))
   \<and> (reachable s \<longrightarrow> acyclic (edges (m_dependency_graph s)))"
proof -
  have "reachable (snd (run_calls (empty_manager :: ('a, 'b, 'c) DependencyManager) cs))"
    by (rule run_calls_reachable) (rule reachable.initial)
  then have "acyclic (edges (m_dependency_graph (snd (run_calls empty_manager cs))))"
    using reachable_graph_inv graph_inv_def by blast
  moreover have "reachable s \<longrightarrow> acyclic (edges (m_dependency_graph s))"
    using reachable_graph_inv graph_inv_def by blast
  ultimately show ?thesis
    by simp
qed

theorem acyclicity_preservation_witness:
  "dependencies_ok chain2_calls (fst (run_calls empty_manager chain2_calls))
   \<and> acyclic (edges (m_dependency_graph (snd (run_calls empty_manager chain2_calls))))
   \<and> reachable chain2 \<and> acyclic (edges (m_dependency_graph chain2))"
proof -
  have ok: "dependencies_ok chain2_calls (fst (run_calls empty_manager chain2_calls))"
    by (simp add: chain2_calls_run) (simp add: chain2_calls_def)
  from acyclicity_preservation [of chain2_calls chain2] ok chain2_reachable
  show ?thesis
    by simp
qed

text \<open>
  C5. A registration call that ends with an error, whichever of the four, leaves the
  manager (graph, records, labels and id map) as it was.
\<close>

theorem failed_registration_unchanged:
  "(fst (register_component s i p) \<noteq> None \<longrightarrow> snd (register_component s i p) = s)
   \<and> (fst (register_dependency s a b l) \<noteq> None \<longrightarrow> snd (register_dependency s a b l) = s)"
  by (auto simp: register_component_def register_dependency_def
      split: option.splits if_splits prod.splits)

theorem failed_registration_unchanged_witness:
  "fst (register_component chain2 10 (make_component 10 quiet)) \<noteq> None
   \<and> snd (register_component chain2 10 (make_component 10 quiet)) = chain2
   \<and> fst (register_dependency chain2 20 10 ()) \<noteq> None
   \<and> snd (register_dependency chain2 20 10 ()) = chain2"
proof -
  have a: "fst (register_component chain2 10 (make_component 10 quiet)) \<noteq> None"
    by (simp add: chain2_value register_component_def)
  have b: "fst (register_dependency chain2 20 10 ()) \<noteq> None"
    by (simp add: chain2_value eval_defs)
  from a b failed_registration_unchanged
    [of chain2 10 "make_component 10 quiet" 20 10 "()"]
  show ?thesis
    by simp
qed

text \<open>
  C9. In a manager reachable through the API, registering a dependency of a registered
  component on itself ends with the would-cycle error and leaves the manager as it was:
  the search discovers its start vertex first, and that vertex is the source.
\<close>

theorem self_dependency_rejected:
  assumes "reachable s" and "m_vertices_map s a = Some v"
  shows "register_dependency s a a l = (Some WouldCycle, s)"
proof -
  let ?g = "m_dependency_graph s"
  have "acyclic (edges ?g)"
    using reachable_graph_inv [OF assms(1)] by (simp add: graph_inv_def)
  then have "(v, v) \<notin> edges ?g"
    by (auto simp: acyclic_def)
  then have "\<not> edge v v ?g"
    by (simp add: edge_iff_edges)
  moreover have "detect_cycle ?g v v = Some WouldCycle"
    by (simp add: detect_cycle_def breadth_first_search_def)
  ultimately show ?thesis
    using assms(2) by (simp add: register_dependency_def)
qed

theorem self_dependency_rejected_witness:
  "reachable chain2 \<and> m_vertices_map chain2 20 = Some 1
   \<and> register_dependency chain2 20 20 () = (Some WouldCycle, chain2)"
proof -
  have a: "m_vertices_map chain2 20 = Some 1"
    by (simp add: chain2_value)
  from self_dependency_rejected [OF chain2_reachable a, of "()"] chain2_reachable a
  show ?thesis
    by simp
qed

section \<open>The claims on the sweep\<close>

text \<open>
  C10. The sweep changes nothing of the graph's structure: after \<open>clear\<close>, however it
  ended, the id map is the same and every vertex has the same out-edges and in-edges
  (labels included), the same component id and the same cleanup action; only the
  records' \<open>is_deleted\<close> flags may have been written.
\<close>

theorem clear_preserves_structure:
  "(case clear s w of
      (c, s', w', lg) \<Rightarrow>
        m_vertices_map s' = m_vertices_map s
        \<and> map frame (m_dependency_graph s') = map frame (m_dependency_graph s)
        \<and> map m_out_edges (m_dependency_graph s') = map m_out_edges (m_dependency_graph s)
        \<and> map m_in_edges (m_dependency_graph s') = map m_in_edges (m_dependency_graph s)
        \<and> num_vertices (m_dependency_graph s') = num_vertices (m_dependency_graph s)
        \<and> edges (m_dependency_graph s') = edges (m_dependency_graph s))"
proof -
  obtain c s' w' lg where run: "clear s w = (c, s', w', lg)"
    by (cases "clear s w") auto
  note fr = clear_frame(1) [OF run]
  have "length (m_dependency_graph s') = length (m_dependency_graph s)"
    using fr by (metis length_map)
  moreover have "out_targets (m_dependency_graph s') = out_targets (m_dependency_graph s)"
    by (rule out_targets_cong) (rule frame_out_edges [OF fr])
  ultimately show ?thesis
    using run fr clear_frame(2) [OF run] frame_out_edges [OF fr] frame_in_edges [OF fr]
    by (simp add: num_vertices_def edges_def)
qed

text \<open>
  C3 (scenario). The three registrations and the three dependencies of the triangle all
  succeed. The sweep then invokes the cleanups of vertices 2, 1, 0 in this order: component 30 is
  cleaned before component 20, although the edge \<open>30 \<rightarrow> 20\<close> is present, so the cleanup
  of the edge's target does not precede that of its source.
\<close>

theorem clear_triangle_order:
  "run_calls empty_manager triangle_calls = ([None, None, None, None, None, None], triangle)
   \<and> edge 2 1 (m_dependency_graph triangle)
   \<and> clear triangle () = (Returns, triangle, (), [(2, Returns), (1, Returns), (0, Returns)])"
proof -
  have "edge 2 1 (m_dependency_graph triangle)"
    by (simp add: triangle_value eval_defs)
  moreover have
    "clear triangle () = (Returns, triangle, (), [(2, Returns), (1, Returns), (0, Returns)])"
    by (simp add: triangle_value sweep_defs eval_defs)
  ultimately show ?thesis
    using triangle_calls_run by simp
qed

text \<open>
  C4 (scenario). On the two-root manager the sweep returns after invoking the cleanup of
  the shared vertex 2 twice, once from each root, and every record's \<open>is_deleted\<close> flag
  is false afterwards, as it was before.
\<close>

theorem clear_two_roots:
  "(case clear two_roots () of
      (c, s', w', lg) \<Rightarrow>
        c = Returns
        \<and> lg = [(2, Returns), (0, Returns), (2, Returns), (1, Returns)]
        \<and> map (\<lambda>sv. is_deleted (m_property sv)) (m_dependency_graph s') = [False, False, False])
   \<and> map (\<lambda>sv. is_deleted (m_property sv)) (m_dependency_graph two_roots) = [False, False, False]"
  by (simp add: two_roots_value sweep_defs eval_defs)

text \<open>
  C8 (scenario). \<open>clear\<close> of a record writes \<open>is_deleted = false\<close>. A default-constructed
  record, whose flag is true, is registered without error; the sweep takes its flag from
  true to false. A record built by the other constructor starts with the flag false and
  keeps it false through the sweep.
\<close>

theorem clear_resets_is_deleted:
  "fst (register_component empty_manager (7::nat) (default_component :: unit DependencyComponent)
         :: error option \<times> (nat, unit, unit) DependencyManager) = None
   \<and> map (\<lambda>sv. is_deleted (m_property sv)) (m_dependency_graph blank) = [True]
   \<and> (case clear blank () of
        (c, s', w', lg) \<Rightarrow>
          c = Returns \<and> lg = [(0, Returns)]
          \<and> map (\<lambda>sv. is_deleted (m_property sv)) (m_dependency_graph s') = [False])
   \<and> (case clear chain2 () of
        (c, s', w', lg) \<Rightarrow>
          c = Returns \<and> lg = [(1, Returns), (0, Returns)]
          \<and> map (\<lambda>sv. is_deleted (m_property sv)) (m_dependency_graph s') = [False, False])"
  by (simp add: blank_def chain2_value sweep_defs eval_defs)




text \<open>
  C7, as the claim states it, fails. After a completed sweep of the manager with
  \<open>10 \<rightarrow> 20\<close>, \<open>register_component\<close> of a new id returns without error and adds a vertex,
  \<open>register_dependency\<close> of a new edge returns without error and adds it, and a second
  sweep is not refused: it returns normally.
\<close>

theorem calls_after_clear_accepted:
  "clear chain2 () = (Returns, chain2, (), [(1, Returns), (0, Returns)])
   \<and> fst (register_component chain2 30 (make_component 30 quiet)) = None
   \<and> num_vertices (m_dependency_graph (snd (register_component chain2 30 (make_component 30 quiet)))) = 3
   \<and> fst (register_dependency
            (snd (register_component chain2 30 (make_component 30 quiet))) 20 30 ()) = None
   \<and> edge 1 2 (m_dependency_graph (snd (register_dependency
            (snd (register_component chain2 30 (make_component 30 quiet))) 20 30 ())))
   \<and> (case clear chain2 () of (c, s', w', lg) \<Rightarrow> fst (clear s' w') = Returns)"
  by (simp add: chain2_value sweep_defs eval_defs)

text \<open>
  C7, amended. The manager has no error for a call that comes after a sweep. After
  \<open>clear\<close>, \<open>register_component\<close> and \<open>register_dependency\<close> end exactly as they would
  have on the manager before the sweep (with no error, or with the same one of the four
  registration errors), and a call that ends with an error mutates nothing. A further
  sweep is not refused either: it ends by an exception only when a cleanup it invoked
  threw. Which cleanups a further sweep invokes is not stated here.
\<close>

theorem registration_after_clear:
  "(case clear s w of
      (c, s', w', lg) \<Rightarrow>
        fst (register_component s' i p) = fst (register_component s i p)
        \<and> fst (register_dependency s' a b l) = fst (register_dependency s a b l)
        \<and> (fst (register_component s' i p) \<noteq> None \<longrightarrow> snd (register_component s' i p) = s')
        \<and> (fst (register_dependency s' a b l) \<noteq> None \<longrightarrow> snd (register_dependency s' a b l) = s')
        \<and> (case clear s' v of (c2, s2, w2, lg2) \<Rightarrow> (c2 = Returns \<longleftrightarrow> all_returned lg2)))"
proof -
  obtain c s' w' lg where run: "clear s w = (c, s', w', lg)"
    by (cases "clear s w") auto
  obtain c2 s2 w2 lg2 where run2: "clear s' v = (c2, s2, w2, lg2)"
    by (cases "clear s' v") auto
  then obtain g2 where
    loop2: "clear_loop (vertices (m_dependency_graph s')) (m_dependency_graph s') v [] = (c2, g2, w2, lg2)"
    by (auto simp: clear_def split: prod.splits)
  note fr = clear_frame(1) [OF run]
  have vm: "m_vertices_map s' = m_vertices_map s"
    by (rule clear_frame(2) [OF run])
  have len: "num_vertices (m_dependency_graph s') = num_vertices (m_dependency_graph s)"
    using arg_cong [OF fr, of length] by (simp only: num_vertices_def length_map)
  have ot: "out_targets (m_dependency_graph s') = out_targets (m_dependency_graph s)"
    by (rule out_targets_cong) (rule frame_out_edges [OF fr])
  have 1: "fst (register_component s' i p) = fst (register_component s i p)"
    by (simp add: register_component_error vm)
  have 2: "fst (register_dependency s' a b l) = fst (register_dependency s a b l)"
    by (simp add: register_dependency_error vm edge_cong [OF ot] detect_cycle_cong [OF ot len]
        split: option.splits)
  have 3: "fst (register_component s' i p) \<noteq> None \<longrightarrow> snd (register_component s' i p) = s'"
    by (auto simp: register_component_def split: prod.splits)
  have 4: "fst (register_dependency s' a b l) \<noteq> None \<longrightarrow> snd (register_dependency s' a b l) = s'"
    by (auto simp: register_dependency_def split: option.splits if_splits)
  have "all_returned []"
    by (simp add: all_returned_def)
  from clear_loop_log [OF this loop2]
  have 5: "c2 = Returns \<longleftrightarrow> all_returned lg2"
    by simp
  from 1 2 3 4 5 run run2 show ?thesis
    by simp
qed

theorem registration_after_clear_witness:
  "clear chain2 () = (Returns, chain2, (), [(1, Returns), (0, Returns)])
   \<and> fst (register_component chain2 10 (make_component 10 quiet)) \<noteq> None
   \<and> snd (register_component chain2 10 (make_component 10 quiet)) = chain2
   \<and> fst (register_dependency chain2 20 10 ()) \<noteq> None
   \<and> snd (register_dependency chain2 20 10 ()) = chain2
   \<and> all_returned [(1, Returns), (0, Returns)]"
proof -
  have run: "clear chain2 () = (Returns, chain2, (), [(1, Returns), (0, Returns)])"
    by (simp add: chain2_value sweep_defs eval_defs)
  have a: "fst (register_component chain2 10 (make_component 10 quiet)) \<noteq> None"
    by (simp add: chain2_value register_component_def)
  have b: "fst (register_dependency chain2 20 10 ()) \<noteq> None"
    by (simp add: chain2_value eval_defs)
  from registration_after_clear
    [where s = chain2 and w = "()" and v = "()" and i = 10 and p = "make_component 10 quiet"
       and a = 20 and b = 10 and l = "()"] run a b
  show ?thesis
    by simp
qed

end
